theory Spec2Isabelle
  imports Main
begin

section \<open>The singly-linked list \<open>alg::s_list\<close> of \<open>s_list.hpp\<close>\<close>

text \<open>
  The container is a chain of heap nodes linked by \<open>std::shared_ptr<node>\<close>, entered through
  a data-less first node \<open>m_first\<close>, with a second pointer \<open>m_last\<close> to the last node and a
  counter \<open>m_size\<close>. Several pointers refer to the same node, so the nodes live in an explicit
  store from addresses to nodes and a pointer is an address or \<open>nullptr\<close> (\<open>None\<close>).

  \<^item> A \<open>shared_ptr\<close> keeps its node alive for as long as any pointer refers to it. The store
    therefore never removes a node: a node that no pointer reaches any more stays in the store
    as garbage, and \<open>make_shared\<close> always hands out an address that was never used.
    Reference counts and the success of allocation are not modelled.
  \<^item> \<open>m_size\<close> is a \<open>std::size_t\<close>. It is modelled as a natural number: \<open>m_size++\<close> does not
    wrap, since a list of \<open>2^64\<close> nodes does not fit the address space; \<open>m_size--\<close> is
    written with its wrap-around at zero.
  \<^item> The three \<open>std::logic_error\<close>/\<open>std::invalid_argument\<close> throw sites are the kinds
    \<open>EmptyContainer\<close> (the list methods called on an empty list), \<open>ValueNotFound\<close>
    (\<open>std::invalid_argument\<close> of \<open>erase\<close> and \<open>insert_after\<close>) and \<open>InvalidNodeAccess\<close>
    (the \<open>this == nullptr\<close> guards of \<open>node::get\<close> and \<open>node::next\<close>, taken as written;
    see the remark at \<open>node_get\<close>).
  \<^item> A method that throws returns the error together with the state of the list at the
    throw; a loop that does not terminate returns \<open>None\<close>.
\<close>

subsection \<open>Nodes and the store\<close>

datatype error = EmptyContainer | ValueNotFound | InvalidNodeAccess

type_synonym ptr = "nat option"

record 'a node =
  m_data :: 'a
  m_next :: ptr

type_synonym 'a store = "nat \<Rightarrow> 'a node"

text \<open>
  \<open>node::get\<close> and \<open>node::next\<close>, read through a pointer. Both begin with the guard
  \<^verbatim>\<open>if (this == static_cast<node*>(nullptr)) throw std::logic_error(...)\<close>,
  and the \<open>None\<close> case is that guard as it is written. It is the one case where the model
  says more than the program: a member call through a null pointer has undefined behaviour
  in C++, so a compiler may keep the guard (the call throws) or remove it (the read of the
  member goes through the null pointer). What the model holds for this case is that the call
  does not return a node member; nothing below depends on which failure it is. No method
  reaches the case on a list built by the mutating methods, except \<open>end()\<close> on the empty
  list and an iterator advanced or dereferenced at the end.
\<close>

definition node_get :: "'a store \<Rightarrow> ptr \<Rightarrow> error + 'a" where
  "node_get h p = (case p of None \<Rightarrow> Inl InvalidNodeAccess | Some a \<Rightarrow> Inr (m_data (h a)))"

definition node_next :: "'a store \<Rightarrow> ptr \<Rightarrow> error + ptr" where
  "node_next h p = (case p of None \<Rightarrow> Inl InvalidNodeAccess | Some a \<Rightarrow> Inr (m_next (h a)))"

subsection \<open>The list object\<close>

record 'a s_list =
  store :: "'a store"
  fresh :: nat
  m_first :: ptr
  m_last :: ptr
  m_size :: nat

text \<open>Sequencing of steps that may throw: the first error ends the method.\<close>

definition and_then ::
  "error option \<times> 's \<Rightarrow> ('s \<Rightarrow> error option \<times> 's) \<Rightarrow> error option \<times> 's" where
  "and_then r f = (case fst r of Some e \<Rightarrow> r | None \<Rightarrow> f (snd r))"

definition reading :: "error + 'v \<Rightarrow> 's \<Rightarrow> ('v \<Rightarrow> error option \<times> 's) \<Rightarrow> error option \<times> 's" where
  "reading r s f = (case r of Inl e \<Rightarrow> (Some e, s) | Inr v \<Rightarrow> f v)"

text \<open>The assignment \<open>p->next() = q\<close>: \<open>next()\<close> returns a reference, after its guard.\<close>

definition assign_next :: "ptr \<Rightarrow> ptr \<Rightarrow> 'a s_list \<Rightarrow> error option \<times> 'a s_list" where
  "assign_next p q s =
     (case p of
        None \<Rightarrow> (Some InvalidNodeAccess, s)
      | Some a \<Rightarrow> (None, s\<lparr>store := (store s)(a := (store s a)\<lparr>m_next := q\<rparr>)\<rparr>))"

text \<open>\<open>std::make_shared<node>(item)\<close>: a new node \<open>node(item, nullptr)\<close> at an unused address.\<close>

definition make_shared :: "'a \<Rightarrow> 'a s_list \<Rightarrow> ptr \<times> 'a s_list" where
  "make_shared item s =
     (Some (fresh s),
      s\<lparr>store := (store s)(fresh s := \<lparr>m_data = item, m_next = None\<rparr>),
        fresh := Suc (fresh s)\<rparr>)"

text \<open>
  The constructor \<open>s_list()\<close>. The first node is made by \<open>node()\<close>, which leaves \<open>m_data\<close>
  default-initialised: that value is the parameter \<open>d\<close>.
\<close>

definition s_list_init :: "'a \<Rightarrow> 'a s_list" where
  "s_list_init d =
     \<lparr>store = (\<lambda>_. \<lparr>m_data = d, m_next = None\<rparr>), fresh = 1,
      m_first = Some 0, m_last = None, m_size = 0\<rparr>"

definition empty_l :: "'a s_list \<Rightarrow> bool" where
  "empty_l s = (m_last s = None)"

definition size_l :: "'a s_list \<Rightarrow> nat" where
  "size_l s = m_size s"

subsection \<open>The search loop\<close>

text \<open>
  \<open>find\<close>, \<open>erase\<close> and \<open>insert_after\<close> run the same loop
  \<^verbatim>\<open>for (; t != m_last && t->next()->get() != item; t = t->next());\<close>
  from \<open>t = m_first\<close>. It reads the store only and returns the final \<open>t\<close>.
\<close>

partial_function (option) scan :: "'a store \<Rightarrow> ptr \<Rightarrow> ptr \<Rightarrow> 'a \<Rightarrow> (error + ptr) option" where
  "scan h t lst item =
     (if t = lst then Some (Inr t)
      else case node_next h t of
             Inl e \<Rightarrow> Some (Inl e)
           | Inr n \<Rightarrow>
               (case node_get h n of
                  Inl e \<Rightarrow> Some (Inl e)
                | Inr v \<Rightarrow> if v \<noteq> item then scan h n lst item else Some (Inr t)))"

definition find_l :: "'a \<Rightarrow> 'a s_list \<Rightarrow> (error + ptr) option" where
  "find_l item s =
     (if empty_l s then Some (Inl EmptyContainer)
      else case scan (store s) (m_first s) (m_last s) item of
             None \<Rightarrow> None
           | Some (Inl e) \<Rightarrow> Some (Inl e)
           | Some (Inr t) \<Rightarrow>
               if t = m_last s then Some (Inr None) else Some (node_next (store s) t))"

subsection \<open>Insertion at the ends\<close>

definition push_back :: "'a \<Rightarrow> 'a s_list \<Rightarrow> error option \<times> 'a s_list" where
  "push_back item s =
     (if empty_l s then
        (let (p, s1) = make_shared item s in
         and_then (assign_next (m_first s1) p s1) (\<lambda>s2.
         reading (node_next (store s2) (m_first s2)) s2 (\<lambda>q.
         let s3 = s2\<lparr>m_last := q\<rparr> in
         and_then (assign_next (m_last s3) None s3) (\<lambda>s4.
         (None, s4\<lparr>m_size := m_size s4 + 1\<rparr>)))))
      else
        (let (p, s1) = make_shared item s in
         and_then (assign_next (m_last s1) p s1) (\<lambda>s2.
         reading (node_next (store s2) (m_last s2)) s2 (\<lambda>q.
         let s3 = s2\<lparr>m_last := q\<rparr> in
         and_then (assign_next (m_last s3) None s3) (\<lambda>s4.
         (None, s4\<lparr>m_size := m_size s4 + 1\<rparr>))))))"

definition push_front :: "'a \<Rightarrow> 'a s_list \<Rightarrow> error option \<times> 'a s_list" where
  "push_front item s =
     (if empty_l s then
        (let (p, s1) = make_shared item s in
         and_then (assign_next (m_first s1) p s1) (\<lambda>s2.
         reading (node_next (store s2) (m_first s2)) s2 (\<lambda>q.
         let s3 = s2\<lparr>m_last := q\<rparr> in
         and_then (assign_next (m_last s3) None s3) (\<lambda>s4.
         (None, s4\<lparr>m_size := m_size s4 + 1\<rparr>)))))
      else
        (let (tmp, s1) = make_shared item s in
         reading (node_next (store s1) (m_first s1)) s1 (\<lambda>q.
         and_then (assign_next tmp q s1) (\<lambda>s2.
         and_then (assign_next (m_first s2) tmp s2) (\<lambda>s3.
         and_then (assign_next (m_last s3) None s3) (\<lambda>s4.
         (None, s4\<lparr>m_size := m_size s4 + 1\<rparr>)))))))"

text \<open>The constructor from an initializer list: \<open>s_list()\<close>, then \<open>push_back\<close> of each item.\<close>

fun push_all :: "'a list \<Rightarrow> 'a s_list \<Rightarrow> error option \<times> 'a s_list" where
  "push_all [] s = (None, s)"
| "push_all (item # args) s = and_then (push_back item s) (push_all args)"

definition s_list_of :: "'a \<Rightarrow> 'a list \<Rightarrow> error option \<times> 'a s_list" where
  "s_list_of d args = push_all args (s_list_init d)"

subsection \<open>\<open>erase\<close> and \<open>insert_after\<close>\<close>

text \<open>\<open>SIZE_MAX\<close> of a 64-bit \<open>std::size_t\<close>, the value of \<open>m_size--\<close> at zero.\<close>

definition size_max :: nat where
  "size_max = 2 ^ 64 - 1"

text \<open>
  Both methods test \<open>empty()\<close>, run the search loop and throw \<open>std::invalid_argument\<close>
  when it ends at \<open>m_last\<close>; only then do they assign. In \<open>erase\<close>,
  \<^verbatim>\<open>to_be_removed = t->next(); t->next() = t->next()->next();\<close>
  reads \<open>t->next()\<close> twice with no assignment in between: the model reads it once, as
  \<open>to_be_removed\<close>. \<open>to_be_removed.reset()\<close> drops a local pointer and changes no node.
\<close>

definition erase :: "'a \<Rightarrow> 'a s_list \<Rightarrow> (error option \<times> 'a s_list) option" where
  "erase item s =
     (if empty_l s then Some (Some EmptyContainer, s)
      else case scan (store s) (m_first s) (m_last s) item of
             None \<Rightarrow> None
           | Some (Inl e) \<Rightarrow> Some (Some e, s)
           | Some (Inr t) \<Rightarrow>
               if t = m_last s then Some (Some ValueNotFound, s)
               else Some
                (reading (node_next (store s) t) s (\<lambda>to_be_removed.
                 reading (node_next (store s) to_be_removed) s (\<lambda>n.
                 and_then (assign_next t n s) (\<lambda>s1.
                 reading (node_next (store s1) t) s1 (\<lambda>tn.
                 let s2 = (if tn = None then s1\<lparr>m_last := t\<rparr> else s1);
                     s3 = (if m_first s2 = m_last s2 then s2\<lparr>m_last := None\<rparr> else s2)
                 in (None,
                     s3\<lparr>m_size := (if m_size s3 = 0 then size_max else m_size s3 - 1)\<rparr>)))))))"

definition insert_after :: "'a \<Rightarrow> 'a \<Rightarrow> 'a s_list \<Rightarrow> (error option \<times> 'a s_list) option" where
  "insert_after pos item s =
     (if empty_l s then Some (Some EmptyContainer, s)
      else case scan (store s) (m_first s) (m_last s) pos of
             None \<Rightarrow> None
           | Some (Inl e) \<Rightarrow> Some (Some e, s)
           | Some (Inr t) \<Rightarrow>
               if t = m_last s then Some (Some ValueNotFound, s)
               else Some
                (reading (node_next (store s) t) s (\<lambda>prev.
                 let (new_node, s1) = make_shared item s in
                 if prev = m_last s1 then
                   and_then (assign_next (m_last s1) new_node s1) (\<lambda>s2.
                   reading (node_next (store s2) (m_last s2)) s2 (\<lambda>q.
                   let s3 = s2\<lparr>m_last := q\<rparr> in
                   and_then (assign_next (m_last s3) None s3) (\<lambda>s4.
                   (None, s4\<lparr>m_size := m_size s4 + 1\<rparr>))))
                 else
                   reading (node_next (store s1) prev) s1 (\<lambda>tmp.
                   and_then (assign_next prev new_node s1) (\<lambda>s2.
                   and_then (assign_next new_node tmp s2) (\<lambda>s3.
                   (None, s3\<lparr>m_size := m_size s3 + 1\<rparr>)))))))"

subsection \<open>\<open>clear\<close>\<close>

text \<open>
  The loop of \<open>clear\<close>:
  \<^verbatim>\<open>while (m_first->next() != nullptr) { ptr = m_first->next();
       m_first->next() = m_first->next()->next(); ptr.reset(); }\<close>
  The three reads of \<open>m_first->next()\<close> in one round return the same pointer \<open>p\<close>.
  After the loop, \<open>m_last.reset()\<close> and \<open>m_size = 0\<close>.
\<close>

partial_function (option) clear_loop :: "'a s_list \<Rightarrow> (error option \<times> 'a s_list) option" where
  "clear_loop s =
     (case node_next (store s) (m_first s) of
        Inl e \<Rightarrow> Some (Some e, s)
      | Inr p \<Rightarrow>
          if p \<noteq> None then
            (case node_next (store s) p of
               Inl e \<Rightarrow> Some (Some e, s)
             | Inr q \<Rightarrow>
                 (case assign_next (m_first s) q s of
                    (Some e, s1) \<Rightarrow> Some (Some e, s1)
                  | (None, s1) \<Rightarrow> clear_loop s1))
          else Some (None, s))"

definition clear :: "'a s_list \<Rightarrow> (error option \<times> 'a s_list) option" where
  "clear s =
     (case clear_loop s of
        None \<Rightarrow> None
      | Some (Some e, s1) \<Rightarrow> Some (Some e, s1)
      | Some (None, s1) \<Rightarrow> Some (None, s1\<lparr>m_last := None, m_size := 0\<rparr>))"

subsection \<open>Element access and iterators\<close>

definition front_l :: "'a s_list \<Rightarrow> error + 'a" where
  "front_l s =
     (if empty_l s then Inl EmptyContainer
      else case node_next (store s) (m_first s) of
             Inl e \<Rightarrow> Inl e
           | Inr p \<Rightarrow> node_get (store s) p)"

definition back_l :: "'a s_list \<Rightarrow> error + 'a" where
  "back_l s = (if empty_l s then Inl EmptyContainer else node_get (store s) (m_last s))"

record iterator =
  m_ptr :: ptr

text \<open>The default constructor \<open>iterator()\<close>: the past-the-end value.\<close>

definition iterator_init :: iterator where
  "iterator_init = \<lparr>m_ptr = None\<rparr>"

text \<open>\<open>operator*\<close>, \<open>operator->\<close>, prefix \<open>operator++\<close> and \<open>operator==\<close>.\<close>

definition iterator_deref :: "'a store \<Rightarrow> iterator \<Rightarrow> error + 'a" where
  "iterator_deref h it = node_get h (m_ptr it)"

definition iterator_arrow :: "iterator \<Rightarrow> ptr" where
  "iterator_arrow it = m_ptr it"

definition iterator_incr :: "'a store \<Rightarrow> iterator \<Rightarrow> error option \<times> iterator" where
  "iterator_incr h it =
     (case node_next h (m_ptr it) of
        Inl e \<Rightarrow> (Some e, it)
      | Inr q \<Rightarrow> (None, it\<lparr>m_ptr := q\<rparr>))"

definition iterator_eq :: "iterator \<Rightarrow> iterator \<Rightarrow> bool" where
  "iterator_eq a b = (m_ptr a = m_ptr b)"

definition begin_l :: "'a s_list \<Rightarrow> error + iterator" where
  "begin_l s =
     (case node_next (store s) (m_first s) of
        Inl e \<Rightarrow> Inl e
      | Inr p \<Rightarrow> Inr \<lparr>m_ptr = p\<rparr>)"

definition end_l :: "'a s_list \<Rightarrow> error + iterator" where
  "end_l s =
     (case node_next (store s) (m_last s) of
        Inl e \<Rightarrow> Inl e
      | Inr p \<Rightarrow> Inr \<lparr>m_ptr = p\<rparr>)"

subsection \<open>Forward traversal\<close>

text \<open>
  The traversal of the tests and of \<open>operator<<\<close>: from \<open>begin()\<close>, read the element and
  advance with \<open>++\<close> until the iterator equals the past-the-end iterator. The walk compares
  with \<open>iterator()\<close>, so that it is defined on the empty list too; it records the node
  pointer (\<open>operator->\<close>) and the element (\<open>operator*\<close>) of every position.
\<close>

partial_function (option) walk :: "'a store \<Rightarrow> iterator \<Rightarrow> (error + (ptr \<times> 'a) list) option" where
  "walk h it =
     (if iterator_eq it iterator_init then Some (Inr [])
      else case iterator_deref h it of
             Inl e \<Rightarrow> Some (Inl e)
           | Inr v \<Rightarrow>
               (case iterator_incr h it of
                  (Some e, it1) \<Rightarrow> Some (Inl e)
                | (None, it1) \<Rightarrow>
                    Option.bind (walk h it1) (\<lambda>r.
                      case r of
                        Inl e \<Rightarrow> Some (Inl e)
                      | Inr pvs \<Rightarrow> Some (Inr ((iterator_arrow it, v) # pvs)))))"

definition positions :: "'a s_list \<Rightarrow> (error + (ptr \<times> 'a) list) option" where
  "positions s =
     (case begin_l s of
        Inl e \<Rightarrow> Some (Inl e)
      | Inr it \<Rightarrow> walk (store s) it)"

definition traverse :: "'a s_list \<Rightarrow> (error + 'a list) option" where
  "traverse s = map_option (map_sum id (map snd)) (positions s)"

subsection \<open>Sequences of calls\<close>

text \<open>
  A caller's sequence of mutating calls on one list. A call that throws leaves the list as
  it is at the throw, and the caller goes on (as the tests do, which catch the exception).
\<close>

datatype 'a call = PushBack 'a | PushFront 'a | Erase 'a | InsertAfter 'a 'a | Clear

fun call_op :: "'a call \<Rightarrow> 'a s_list \<Rightarrow> (error option \<times> 'a s_list) option" where
  "call_op (PushBack x) s = Some (push_back x s)"
| "call_op (PushFront x) s = Some (push_front x s)"
| "call_op (Erase x) s = erase x s"
| "call_op (InsertAfter pos x) s = insert_after pos x s"
| "call_op Clear s = clear s"

fun run :: "'a call list \<Rightarrow> 'a s_list \<Rightarrow> 'a s_list option" where
  "run [] s = Some s"
| "run (c # cs) s = (case call_op c s of None \<Rightarrow> None | Some r \<Rightarrow> run cs (snd r))"

section \<open>The representation invariant\<close>

text \<open>
  \<open>seg h p as q\<close>: following the \<open>m_next\<close> links of the store \<open>h\<close> from the pointer \<open>p\<close>
  visits exactly the addresses \<open>as\<close>, in order, and arrives at \<open>q\<close>.
\<close>

fun seg :: "'a store \<Rightarrow> ptr \<Rightarrow> nat list \<Rightarrow> ptr \<Rightarrow> bool" where
  "seg h p [] q = (p = q)"
| "seg h p (a # as) q = (p = Some a \<and> seg h (m_next (h a)) as q)"

text \<open>
  The invariants I1 to I5 of the container, for the first node \<open>a0\<close> and the addresses \<open>as\<close>
  of the real nodes in chain order: the chain from \<open>m_first\<close> ends in \<open>nullptr\<close> and does not
  repeat a node, every node of it was allocated, \<open>m_last\<close> is \<open>nullptr\<close> for an empty chain
  and the last node otherwise, and \<open>m_size\<close> counts the real nodes.
\<close>

definition list_inv :: "'a s_list \<Rightarrow> nat \<Rightarrow> nat list \<Rightarrow> bool" where
  "list_inv s a0 as \<longleftrightarrow>
     m_first s = Some a0 \<and> seg (store s) (Some a0) (a0 # as) None \<and> distinct (a0 # as) \<and>
     list_all (\<lambda>a. a < fresh s) (a0 # as) \<and>
     m_last s = (if as = [] then None else Some (last as)) \<and> m_size s = length as"

text \<open>The elements stored in the nodes \<open>as\<close>.\<close>

definition elems :: "'a s_list \<Rightarrow> nat list \<Rightarrow> 'a list" where
  "elems s as = map (\<lambda>a. m_data (store s a)) as"

text \<open>A list holding 1 and 2, for the concrete instances below.\<close>

definition example_list :: "int s_list" where
  "example_list = snd (push_back 2 (snd (push_back 1 (s_list_init 0))))"

section \<open>Chains in the store\<close>

lemma seg_append: "seg h p (as @ bs) q = (\<exists>r. seg h p as r \<and> seg h r bs q)"
  by (induction as arbitrary: p) auto

lemma seg_cong_next:
  "(\<And>a. a \<in> set as \<Longrightarrow> m_next (h' a) = m_next (h a)) \<Longrightarrow> seg h' p as q = seg h p as q"
  by (induction as arbitrary: p) auto

lemma seg_upd: "a \<notin> set as \<Longrightarrow> seg (h(a := n)) p as q = seg h p as q"
  by (rule seg_cong_next) auto

lemma seg_snoc: "seg h p (as @ [a]) q = (seg h p as (Some a) \<and> m_next (h a) = q)"
  by (auto simp: seg_append)

lemma seg_upd_fresh: "\<forall>a\<in>set as. a < n \<Longrightarrow> seg (h(n := v)) p as q = seg h p as q"
  by (rule seg_upd) auto

lemma seg_relink_last:
  "as \<noteq> [] \<Longrightarrow> distinct as \<Longrightarrow> seg h p as q \<Longrightarrow>
   seg (h(last as := (h (last as))\<lparr>m_next := q'\<rparr>)) p as q'"
  by (cases as rule: rev_cases) (auto simp: seg_snoc seg_upd)

lemma seg_last_next: "as \<noteq> [] \<Longrightarrow> seg h p as q \<Longrightarrow> m_next (h (last as)) = q"
  by (cases as rule: rev_cases) (auto simp: seg_snoc)

lemma last_below: "as \<noteq> [] \<Longrightarrow> \<forall>a\<in>set as. a < (n::nat) \<Longrightarrow> last as \<noteq> n"
  using last_in_set by blast

lemma chain_facts:
  assumes seg: "seg h (Some a0) (a0 # pre @ b # post) None"
    and d: "distinct (a0 # pre @ b # post)"
  shows "m_next (h (last (a0 # pre))) = Some b"
    and "seg h (m_next (h b)) post None"
    and "seg h (Some a0) (a0 # pre) (Some b)"
    and "last (a0 # pre) \<noteq> last (b # post)"
    and "last (a0 # pre) \<noteq> b"
    and "last (a0 # pre) \<notin> set post"
    and "(m_next (h b) = None) = (post = [])"
proof -
  have "seg h (Some a0) ((a0 # pre) @ b # post) None" using seg by simp
  then obtain r where r1: "seg h (Some a0) (a0 # pre) r" and r2: "seg h r (b # post) None"
    unfolding seg_append by blast
  from r2 have r: "r = Some b" and r3: "seg h (m_next (h b)) post None" by simp_all
  show "seg h (Some a0) (a0 # pre) (Some b)" using r1 r by simp
  then show "m_next (h (last (a0 # pre))) = Some b"
    by (intro seg_last_next) simp_all
  show "seg h (m_next (h b)) post None" by (rule r3)
  have t: "last (a0 # pre) \<in> set (a0 # pre)" by (rule last_in_set) simp
  have l: "last (b # post) \<in> set (b # post)" by (rule last_in_set) simp
  show "last (a0 # pre) \<noteq> last (b # post)" using t l d by auto
  show "last (a0 # pre) \<noteq> b" using t d by auto
  show "last (a0 # pre) \<notin> set post" using t d by auto
  show "(m_next (h b) = None) = (post = [])" using r3 by (cases post) auto
qed

lemma split_first:
  assumes "\<exists>a\<in>set as. f a = x"
  shows "\<exists>pre b post. as = pre @ b # post \<and> f b = x \<and> (\<forall>a\<in>set pre. f a \<noteq> x)"
  using assms split_list_first_prop [of as "\<lambda>a. f a = x"] by blast

section \<open>The traversal of a well-formed list\<close>

lemma walk_seg:
  "seg h p as None \<Longrightarrow>
   walk h \<lparr>m_ptr = p\<rparr> = Some (Inr (map (\<lambda>a. (Some a, m_data (h a))) as))"
proof (induction as arbitrary: p)
  case Nil
  then show ?case by (subst walk.simps) (simp add: iterator_eq_def iterator_init_def)
next
  case (Cons a as)
  then have p: "p = Some a" and rest: "seg h (m_next (h a)) as None" by simp_all
  show ?case
    by (subst walk.simps)
       (simp add: p Cons.IH [OF rest] iterator_eq_def iterator_init_def iterator_deref_def
          iterator_incr_def iterator_arrow_def node_get_def node_next_def)
qed

lemma positions_inv:
  "list_inv s a0 as \<Longrightarrow> positions s = Some (Inr (map (\<lambda>a. (Some a, m_data (store s a))) as))"
  by (simp add: list_inv_def positions_def begin_l_def node_next_def walk_seg)

lemma traverse_inv: "list_inv s a0 as \<Longrightarrow> traverse s = Some (Inr (elems s as))"
  by (simp add: traverse_def positions_inv elems_def comp_def)

section \<open>The search loop on a well-formed list\<close>

text \<open>The loop stops at the node before the first node that holds \<open>x\<close>, or at the last node.\<close>

lemma scan_seg:
  "seg h (m_next (h t)) bs None \<Longrightarrow> distinct (t # bs) \<Longrightarrow> lst = Some (last (t # bs)) \<Longrightarrow>
   scan h (Some t) lst x = Some (Inr (Some (last (t # takeWhile (\<lambda>a. m_data (h a) \<noteq> x) bs))))"
proof (induction bs arbitrary: t)
  case Nil
  then show ?case by (subst scan.simps) simp
next
  case (Cons b bs)
  from Cons.prems have nb: "m_next (h t) = Some b" and rest: "seg h (m_next (h b)) bs None"
    and d: "distinct (b # bs)" and l: "lst = Some (last (b # bs))" and ne: "Some t \<noteq> lst"
    by auto
  show ?case
    using Cons.IH [OF rest d l] ne
    by (subst scan.simps) (simp add: node_next_def node_get_def nb)
qed

lemma scan_found:
  assumes seg: "seg h (Some a0) (a0 # pre @ b # post) None"
    and d: "distinct (a0 # pre @ b # post)"
    and b: "m_data (h b) = x" and pre: "\<forall>a\<in>set pre. m_data (h a) \<noteq> x"
  shows "scan h (Some a0) (Some (last (b # post))) x = Some (Inr (Some (last (a0 # pre))))"
proof -
  have tw: "takeWhile (\<lambda>a. m_data (h a) \<noteq> x) (pre @ b # post) = pre"
    using b pre by (simp add: takeWhile_append2)
  have "scan h (Some a0) (Some (last (a0 # pre @ b # post))) x =
          Some (Inr (Some (last (a0 # takeWhile (\<lambda>a. m_data (h a) \<noteq> x) (pre @ b # post)))))"
    using seg d by (intro scan_seg) simp_all
  then show ?thesis by (simp add: tw)
qed

lemma scan_absent:
  assumes seg: "seg h (Some a0) (a0 # as) None"
    and d: "distinct (a0 # as)"
    and xs: "\<forall>a\<in>set as. m_data (h a) \<noteq> x"
  shows "scan h (Some a0) (Some (last (a0 # as))) x = Some (Inr (Some (last (a0 # as))))"
proof -
  have tw: "takeWhile (\<lambda>a. m_data (h a) \<noteq> x) as = as"
    using xs by simp
  have "scan h (Some a0) (Some (last (a0 # as))) x =
          Some (Inr (Some (last (a0 # takeWhile (\<lambda>a. m_data (h a) \<noteq> x) as))))"
    using seg d by (intro scan_seg) simp_all
  then show ?thesis by (simp only: tw)
qed

section \<open>The operations keep the invariant\<close>

lemma push_back_inv:
  assumes "list_inv s a0 as"
  shows "\<exists>s'. push_back x s = (None, s') \<and> list_inv s' a0 (as @ [fresh s]) \<and>
           elems s' (as @ [fresh s]) = elems s as @ [x]"
  using assms
  apply (cases "as = []")
   apply (auto simp: push_back_def list_inv_def empty_l_def make_shared_def assign_next_def and_then_def
      reading_def node_next_def elems_def seg_snoc seg_upd seg_upd_fresh list_all_iff seg_relink_last
      dest: last_below)
  done

lemma push_front_inv:
  assumes "list_inv s a0 as"
  shows "\<exists>s'. push_front x s = (None, s') \<and> list_inv s' a0 (fresh s # as) \<and>
           elems s' (fresh s # as) = x # elems s as"
  using assms
  apply (cases "as = []")
   apply (auto simp: push_front_def list_inv_def empty_l_def make_shared_def assign_next_def and_then_def
      reading_def node_next_def elems_def seg_snoc seg_upd seg_upd_fresh list_all_iff seg_relink_last
      dest: last_below)
  apply (rule seg_cong_next [where h = "store s", THEN iffD2])
   apply (auto dest: seg_last_next)
  done

lemma erase_found:
  assumes inv: "list_inv s a0 (pre @ b # post)"
    and b: "m_data (store s b) = x" and pre: "\<forall>a\<in>set pre. m_data (store s a) \<noteq> x"
  shows "\<exists>s'. erase x s = Some (None, s') \<and> list_inv s' a0 (pre @ post) \<and>
           elems s' (pre @ post) = elems s (pre @ post)"
proof -
  define h where "h = store s"
  define t where "t = last (a0 # pre)"
  from inv have seg: "seg h (Some a0) (a0 # pre @ b # post) None"
    and d: "distinct (a0 # pre @ b # post)" and f: "m_first s = Some a0"
    and l: "m_last s = Some (last (b # post))" and sz: "m_size s = length (pre @ b # post)"
    and fr: "list_all (\<lambda>a. a < fresh s) (a0 # pre @ b # post)"
    by (simp_all add: list_inv_def h_def)
  note cf = chain_facts [OF seg d, folded t_def]
  have sc: "scan h (Some a0) (m_last s) x = Some (Inr (Some t))"
    unfolding l t_def using scan_found [OF seg d] b pre by (simp add: h_def)
  have ne: "Some t \<noteq> m_last s" using cf(4) l by simp
  define h' where "h' = h(t := (h t)\<lparr>m_next := m_next (h b)\<rparr>)"
  have seg': "seg h' (Some a0) ((a0 # pre) @ post) None"
    unfolding seg_append
  proof (intro exI conjI)
    show "seg h' (Some a0) (a0 # pre) (m_next (h b))"
      using seg_relink_last [OF _ _ cf(3), of "m_next (h b)"] d by (simp add: h'_def t_def)
    show "seg h' (m_next (h b)) post None"
      using cf(2) cf(6) by (simp add: seg_upd h'_def)
  qed
  have t0: "(a0 = t) = (pre = [])" using d last_in_set [of pre] by (auto simp: t_def)
  have e: "\<not> empty_l s" by (simp add: empty_l_def l)
  define s' where "s' = s\<lparr>store := h',
     m_last := (if post = [] then (if pre = [] then None else Some t) else m_last s),
     m_size := m_size s - 1\<rparr>"
  have ne0: "Some a0 \<noteq> m_last s"
    using d last_in_set [of "b # post"] unfolding l by auto
  have er: "erase x s = Some (None, s')"
    using cf(1) cf(7) t0 sz ne ne0
    by (simp add: erase_def e sc reading_def and_then_def node_next_def assign_next_def
        Let_def f s'_def h'_def h_def [symmetric])
  have "list_inv s' a0 (pre @ post)"
    using seg' d fr l sz t0 by (auto simp: list_inv_def s'_def f t_def)
  moreover have "elems s' (pre @ post) = elems s (pre @ post)"
    by (simp add: elems_def s'_def h'_def h_def)
  ultimately show ?thesis using er by blast
qed

lemma insert_after_found:
  assumes inv: "list_inv s a0 (pre @ b # post)"
    and b: "m_data (store s b) = pos" and pre: "\<forall>a\<in>set pre. m_data (store s a) \<noteq> pos"
  shows "\<exists>s'. insert_after pos v s = Some (None, s') \<and>
           list_inv s' a0 (pre @ b # fresh s # post) \<and>
           elems s' (pre @ b # fresh s # post) = elems s (pre @ [b]) @ v # elems s post"
proof -
  define h where "h = store s"
  define t where "t = last (a0 # pre)"
  define n where "n = fresh s"
  define lst where "lst = last (b # post)"
  from inv have seg: "seg h (Some a0) (a0 # pre @ b # post) None"
    and d: "distinct (a0 # pre @ b # post)" and f: "m_first s = Some a0"
    and l: "m_last s = Some lst" and sz: "m_size s = length (pre @ b # post)"
    and fr: "list_all (\<lambda>a. a < n) (a0 # pre @ b # post)"
    by (simp_all add: list_inv_def h_def n_def lst_def)
  note cf = chain_facts [OF seg d, folded t_def lst_def]
  have sc: "scan h (Some a0) (Some lst) pos = Some (Inr (Some t))"
    unfolding t_def lst_def using scan_found [OF seg d] b pre by (simp add: h_def)
  have nn: "n \<notin> set (a0 # pre @ b # post)" using fr by (auto simp: list_all_iff)
  have bl: "(b = lst) = (post = [])"
    using d last_in_set [of post] unfolding lst_def by auto
  define h' where "h' = h(n := \<lparr>m_data = v, m_next = m_next (h b)\<rparr>, b := (h b)\<lparr>m_next := Some n\<rparr>)"
  have seg': "seg h' (Some a0) ((a0 # pre) @ b # n # post) None"
    unfolding seg_append
  proof (intro exI conjI)
    have "seg h (Some a0) (a0 # pre) (Some b)" by (rule cf(3))
    moreover have "\<And>a. a \<in> set (a0 # pre) \<Longrightarrow> m_next (h' a) = m_next (h a)"
      using nn d by (auto simp: h'_def)
    ultimately show "seg h' (Some a0) (a0 # pre) (Some b)"
      by (simp only: seg_cong_next [where h = h and h' = h'])
    have "seg h' (m_next (h b)) post None"
      using cf(2) nn d by (simp add: seg_upd h'_def)
    then show "seg h' (Some b) (b # n # post) None"
      using nn by (auto simp: h'_def)
  qed
  have e: "\<not> empty_l s" by (simp add: empty_l_def l)
  define s' where "s' = s\<lparr>store := h', fresh := Suc n,
     m_last := (if post = [] then Some n else Some lst),
     m_size := m_size s + 1\<rparr>"
  have bn: "b \<noteq> n" using nn by auto
  have ln: "lst \<noteq> n" using nn last_in_set [of "b # post"] unfolding lst_def by auto
  have er: "insert_after pos v s = Some (None, s')"
    using cf(1) cf(4) cf(7) sz bl bn ln
    apply (simp add: insert_after_def e sc reading_def and_then_def node_next_def assign_next_def
        Let_def f l s'_def h'_def h_def [symmetric] make_shared_def n_def [symmetric])
    apply (auto intro!: s_list.equality simp: fun_eq_iff l)
    done
  have "list_inv s' a0 (pre @ b # n # post)"
    using seg' d fr sz nn by (auto simp: list_inv_def s'_def f list_all_iff lst_def intro: less_SucI)
  moreover have "elems s' (pre @ b # n # post) = elems s (pre @ [b]) @ v # elems s post"
    using nn by (auto simp: elems_def s'_def h'_def h_def)
  ultimately show ?thesis using er unfolding n_def by blast
qed

lemma erase_absent:
  assumes inv: "list_inv s a0 as" and ne: "as \<noteq> []"
    and xs: "\<forall>a\<in>set as. m_data (store s a) \<noteq> x"
  shows "erase x s = Some (Some ValueNotFound, s)"
proof -
  from inv ne have seg: "seg (store s) (Some a0) (a0 # as) None"
    and d: "distinct (a0 # as)" and f: "m_first s = Some a0"
    and l: "m_last s = Some (last (a0 # as))"
    by (simp_all add: list_inv_def)
  have e: "\<not> empty_l s" by (simp add: empty_l_def l)
  show ?thesis
    unfolding erase_def f l using scan_absent [OF seg d xs] e
    by (simp add: empty_l_def l)
qed

lemma insert_after_absent:
  assumes inv: "list_inv s a0 as" and ne: "as \<noteq> []"
    and xs: "\<forall>a\<in>set as. m_data (store s a) \<noteq> pos"
  shows "insert_after pos v s = Some (Some ValueNotFound, s)"
proof -
  from inv ne have seg: "seg (store s) (Some a0) (a0 # as) None"
    and d: "distinct (a0 # as)" and f: "m_first s = Some a0"
    and l: "m_last s = Some (last (a0 # as))"
    by (simp_all add: list_inv_def)
  have e: "\<not> empty_l s" by (simp add: empty_l_def l)
  show ?thesis
    unfolding insert_after_def f l using scan_absent [OF seg d xs] e
    by (simp add: empty_l_def l)
qed

lemma find_l_absent:
  assumes inv: "list_inv s a0 as" and ne: "as \<noteq> []"
    and xs: "\<forall>a\<in>set as. m_data (store s a) \<noteq> x"
  shows "find_l x s = Some (Inr None)"
proof -
  from inv ne have seg: "seg (store s) (Some a0) (a0 # as) None"
    and d: "distinct (a0 # as)" and f: "m_first s = Some a0"
    and l: "m_last s = Some (last (a0 # as))"
    by (simp_all add: list_inv_def)
  have e: "\<not> empty_l s" by (simp add: empty_l_def l)
  show ?thesis
    unfolding find_l_def f l using scan_absent [OF seg d xs] e
    by (simp add: empty_l_def l)
qed

lemma find_l_found:
  assumes inv: "list_inv s a0 (pre @ b # post)"
    and b: "m_data (store s b) = x" and pre: "\<forall>a\<in>set pre. m_data (store s a) \<noteq> x"
  shows "find_l x s = Some (Inr (Some b))"
proof -
  from inv have seg: "seg (store s) (Some a0) (a0 # pre @ b # post) None"
    and d: "distinct (a0 # pre @ b # post)" and f: "m_first s = Some a0"
    and l: "m_last s = Some (last (b # post))"
    by (simp_all add: list_inv_def)
  note cf = chain_facts [OF seg d]
  have e: "\<not> empty_l s" by (simp add: empty_l_def l)
  show ?thesis
    unfolding find_l_def f l using scan_found [OF seg d b pre] e cf(1) cf(4)
    by (simp add: empty_l_def l node_next_def del: last.simps)
qed

lemma empty_inv: "list_inv s a0 as \<Longrightarrow> empty_l s = (as = [])"
  by (simp add: list_inv_def empty_l_def)

lemma erase_empty: "list_inv s a0 [] \<Longrightarrow> erase x s = Some (Some EmptyContainer, s)"
  by (simp add: erase_def empty_inv)

lemma insert_after_empty: "list_inv s a0 [] \<Longrightarrow> insert_after pos v s = Some (Some EmptyContainer, s)"
  by (simp add: insert_after_def empty_inv)

lemma find_l_empty: "list_inv s a0 [] \<Longrightarrow> find_l x s = Some (Inl EmptyContainer)"
  by (simp add: find_l_def empty_inv)

text \<open>The loop of \<open>clear\<close> unlinks the nodes one at a time and ends with an empty chain.\<close>

lemma clear_loop_seg:
  assumes "m_first s = Some a0" and "seg (store s) (m_next (store s a0)) as None"
    and "a0 \<notin> set as"
  shows "clear_loop s =
    Some (None, if as = [] then s else s\<lparr>store := (store s)(a0 := (store s a0)\<lparr>m_next := None\<rparr>)\<rparr>)"
  using assms
proof (induction as arbitrary: s)
  case Nil
  then show ?case by (subst clear_loop.simps) (simp add: node_next_def)
next
  case (Cons b bs)
  let ?s1 = "s\<lparr>store := (store s)(a0 := (store s a0)\<lparr>m_next := m_next (store s b)\<rparr>)\<rparr>"
  from Cons.prems have nb: "m_next (store s a0) = Some b"
    and rest: "seg (store s) (m_next (store s b)) bs None" and ab: "a0 \<noteq> b" and abs: "a0 \<notin> set bs"
    by auto
  have "seg ((store s)(a0 := (store s a0)\<lparr>m_next := m_next (store s b)\<rparr>))
          (m_next (store s b)) bs None"
    by (rule seg_upd [OF abs, THEN iffD2, OF rest])
  then have "seg (store ?s1) (m_next (store ?s1 a0)) bs None" by simp
  moreover have "m_first ?s1 = Some a0" using Cons.prems(1) by simp
  ultimately have "clear_loop ?s1 =
     Some (None, if bs = [] then ?s1
                 else ?s1\<lparr>store := (store ?s1)(a0 := (store ?s1 a0)\<lparr>m_next := None\<rparr>)\<rparr>)"
    using abs by (intro Cons.IH)
  moreover have "bs = [] \<Longrightarrow> m_next (store s b) = None" using rest by simp
  ultimately show ?case
    using Cons.prems(1) nb
    by (subst clear_loop.simps) (auto simp: node_next_def assign_next_def)
qed

lemma clear_inv:
  assumes inv: "list_inv s a0 as"
  shows "\<exists>s'. clear s = Some (None, s') \<and> list_inv s' a0 [] \<and> m_first s' = m_first s"
  using inv clear_loop_seg [of s a0 as]
  by (auto simp: clear_def list_inv_def)

lemma clear_empty: "list_inv s a0 [] \<Longrightarrow> clear s = Some (None, s)"
  using clear_loop_seg [of s a0 "[]"]
  by (simp add: clear_def list_inv_def)

lemma init_inv: "list_inv (s_list_init d) 0 []"
  by (simp add: list_inv_def s_list_init_def)

text \<open>Every call returns, and leaves a well-formed list, also when it throws.\<close>

lemma erase_total:
  assumes inv: "list_inv s a0 as"
  shows "\<exists>r s' as'. erase x s = Some (r, s') \<and> list_inv s' a0 as'"
proof (cases "as = []")
  case True
  then show ?thesis using inv erase_empty [of s a0 x] by auto
next
  case False
  show ?thesis
  proof (cases "\<exists>a\<in>set as. m_data (store s a) = x")
    case True
    then obtain pre b post where "as = pre @ b # post" "m_data (store s b) = x"
      "\<forall>a\<in>set pre. m_data (store s a) \<noteq> x"
      using split_first [of as "\<lambda>a. m_data (store s a)" x] by blast
    then show ?thesis using inv erase_found [of s a0 pre b post x] by blast
  next
    case False
    then show ?thesis using inv \<open>as \<noteq> []\<close> erase_absent [of s a0 as x] by blast
  qed
qed

lemma insert_after_total:
  assumes inv: "list_inv s a0 as"
  shows "\<exists>r s' as'. insert_after pos v s = Some (r, s') \<and> list_inv s' a0 as'"
proof (cases "as = []")
  case True
  then show ?thesis using inv insert_after_empty [of s a0 pos v] by auto
next
  case False
  show ?thesis
  proof (cases "\<exists>a\<in>set as. m_data (store s a) = pos")
    case True
    then obtain pre b post where "as = pre @ b # post" "m_data (store s b) = pos"
      "\<forall>a\<in>set pre. m_data (store s a) \<noteq> pos"
      using split_first [of as "\<lambda>a. m_data (store s a)" pos] by blast
    then show ?thesis using inv insert_after_found [of s a0 pre b post pos v] by blast
  next
    case False
    then show ?thesis using inv \<open>as \<noteq> []\<close> insert_after_absent [of s a0 as pos v] by blast
  qed
qed

lemma call_op_inv:
  assumes inv: "list_inv s a0 as"
  shows "\<exists>r s' as'. call_op c s = Some (r, s') \<and> list_inv s' a0 as'"
proof (cases c)
  case (PushBack x)
  then show ?thesis using push_back_inv [OF inv, of x] by auto
next
  case (PushFront x)
  then show ?thesis using push_front_inv [OF inv, of x] by auto
next
  case (Erase x)
  then show ?thesis using erase_total [OF inv, of x] by simp
next
  case (InsertAfter pos x)
  then show ?thesis using insert_after_total [OF inv, of pos x] by simp
next
  case Clear
  then show ?thesis using clear_inv [OF inv] by auto
qed

lemma run_inv:
  "list_inv s a0 as \<Longrightarrow> \<exists>s' as'. run cs s = Some s' \<and> list_inv s' a0 as'"
proof (induction cs arbitrary: s as)
  case Nil
  then show ?case by auto
next
  case (Cons c cs)
  from call_op_inv [OF Cons.prems, of c] obtain r s1 as1
    where c: "call_op c s = Some (r, s1)" and i: "list_inv s1 a0 as1" by blast
  from Cons.IH [OF i] show ?case by (simp add: c)
qed

lemma reachable_inv:
  "run cs (s_list_init d) = Some s \<Longrightarrow> \<exists>as. list_inv s 0 as"
  using run_inv [OF init_inv, of cs d] by auto

section \<open>Observations of a well-formed list\<close>

lemma front_back_inv:
  assumes "list_inv s a0 as" "as \<noteq> []"
  shows "front_l s = Inr (hd (elems s as))" and "back_l s = Inr (last (elems s as))"
  using assms
  by (cases as; simp add: front_l_def back_l_def list_inv_def empty_l_def node_next_def
        node_get_def elems_def last_map)+

lemma size_inv: "list_inv s a0 as \<Longrightarrow> size_l s = length (elems s as)"
  by (simp add: list_inv_def size_l_def elems_def)

lemma end_l_inv: "list_inv s a0 as \<Longrightarrow> as \<noteq> [] \<Longrightarrow> end_l s = Inr iterator_init"
  using seg_last_next [of "a0 # as" "store s" "Some a0" None]
  by (simp add: list_inv_def end_l_def node_next_def iterator_init_def)

lemma remove1_first:
  "f b = x \<Longrightarrow> \<forall>a\<in>set pre. f a \<noteq> x \<Longrightarrow> remove1 x (map f (pre @ b # post)) = map f (pre @ post)"
  by (induction pre) auto

lemma takeWhile_first:
  "f b = x \<Longrightarrow> \<forall>a\<in>set pre. f a \<noteq> x \<Longrightarrow>
   takeWhile (\<lambda>y. y \<noteq> x) (map f (pre @ b # post)) = map f pre"
  by (induction pre) auto

lemma dropWhile_first:
  "f b = x \<Longrightarrow> \<forall>a\<in>set pre. f a \<noteq> x \<Longrightarrow>
   dropWhile (\<lambda>y. y \<noteq> x) (map f (pre @ b # post)) = x # map f post"
  by (induction pre) auto

lemma push_all_inv:
  "list_inv s a0 as \<Longrightarrow>
   \<exists>s' bs. push_all vs s = (None, s') \<and> run (map PushBack vs) s = Some s' \<and>
     list_inv s' a0 (as @ bs) \<and> elems s' (as @ bs) = elems s as @ vs"
proof (induction vs arbitrary: s as)
  case Nil
  then show ?case by (intro exI [of _ s] exI [of _ "[]"]) simp
next
  case (Cons v vs)
  from push_back_inv [OF Cons.prems, of v] obtain s1
    where p: "push_back v s = (None, s1)" and i: "list_inv s1 a0 (as @ [fresh s])"
      and e: "elems s1 (as @ [fresh s]) = elems s as @ [v]" by blast
  from Cons.IH [OF i] obtain s' bs
    where "push_all vs s1 = (None, s')" "run (map PushBack vs) s1 = Some s'"
      "list_inv s' a0 ((as @ [fresh s]) @ bs)"
      "elems s' ((as @ [fresh s]) @ bs) = elems s1 (as @ [fresh s]) @ vs" by blast
  then show ?case using p e
    by (intro exI [of _ s'] exI [of _ "fresh s # bs"]) (simp add: and_then_def)
qed

lemma end_l_nonempty:
  assumes "run cs (s_list_init d) = Some s" and "\<not> empty_l s"
  shows "end_l s = Inr iterator_init \<and> begin_l s \<noteq> end_l s"
proof -
  from reachable_inv [OF assms(1)] obtain as where i: "list_inv s 0 as" by blast
  with assms(2) have ne: "as \<noteq> []" by (simp add: empty_inv)
  then have "begin_l s \<noteq> Inr iterator_init"
    using i by (cases as) (simp_all add: list_inv_def begin_l_def node_next_def iterator_init_def)
  then show ?thesis using end_l_inv [OF i ne] by simp
qed

section \<open>Concrete instances\<close>

text \<open>The model is evaluated on concrete lists by unfolding its definitions.\<close>

lemmas model_defs =
  s_list_init_def push_back_def push_front_def empty_l_def size_l_def make_shared_def
  assign_next_def and_then_def reading_def node_next_def node_get_def traverse_def positions_def
  begin_l_def end_l_def front_l_def back_l_def iterator_eq_def iterator_init_def
  iterator_deref_def iterator_incr_def iterator_arrow_def erase_def insert_after_def
  find_l_def clear_def

lemma example_run: "run [PushBack 1, PushBack 2] (s_list_init 0) = Some example_list"
  by (simp add: example_list_def)

lemma example_traverse: "traverse example_list = Some (Inr [1, 2])"
  by (simp add: example_list_def model_defs walk.simps)

lemma example_positions: "positions example_list = Some (Inr [(Some 1, 1), (Some 2, 2)])"
  by (simp add: example_list_def model_defs walk.simps)

lemma example_empty: "\<not> empty_l example_list"
  by (simp add: example_list_def model_defs)

section \<open>The properties of the container\<close>

subsection \<open>Iterators at the end of the sequence\<close>

text \<open>
  C1. \<open>end()\<close> is \<open>iterator it { m_last->next() }\<close>. On the empty list \<open>m_last\<close> is
  \<open>nullptr\<close>, so the guard of \<open>node::next\<close> throws: for the freshly constructed list,
  \<open>end()\<close> raises \<open>InvalidNodeAccess\<close>, while \<open>begin()\<close> returns the past-the-end iterator.
  (On a non-empty list \<open>end()\<close> returns the past-the-end iterator and differs from
  \<open>begin()\<close>: lemma \<open>end_l_nonempty\<close>.)
\<close>

theorem end_l_empty_raises:
  "end_l (s_list_init d) = Inl InvalidNodeAccess \<and> begin_l (s_list_init d) = Inr iterator_init"
  by (simp add: end_l_def begin_l_def s_list_init_def node_next_def iterator_init_def)

subsection \<open>\<open>push_back\<close> and the constructor from a sequence\<close>

text \<open>
  C8. On an empty list reached by any sequence of calls, pushing the values \<open>vs\<close> in order
  with \<open>push_back\<close> throws nothing and yields a list whose forward traversal is \<open>vs\<close> and
  whose \<open>size()\<close> is the length of \<open>vs\<close>; the same holds for the list constructed from
  \<open>vs\<close>, which is built by the same \<open>push_back\<close> loop on a new list.
\<close>

theorem push_back_order:
  assumes r: "run cs (s_list_init d) = Some s0" and e: "empty_l s0"
  shows "(\<exists>s. push_all vs s0 = (None, s) \<and> run (map PushBack vs) s0 = Some s \<and>
              traverse s = Some (Inr vs) \<and> size_l s = length vs) \<and>
         (\<exists>s. s_list_of d vs = (None, s) \<and> traverse s = Some (Inr vs) \<and> size_l s = length vs)"
proof -
  have *: "\<exists>s. push_all vs t = (None, s) \<and> run (map PushBack vs) t = Some s \<and>
              traverse s = Some (Inr vs) \<and> size_l s = length vs" if i: "list_inv t 0 []" for t
  proof -
    from push_all_inv [OF i, of vs] obtain s bs
      where p: "push_all vs t = (None, s)" and r: "run (map PushBack vs) t = Some s"
        and i': "list_inv s 0 bs" and el: "elems s bs = vs"
      by (auto simp: elems_def)
    show ?thesis
      using p r traverse_inv [OF i'] size_inv [OF i'] el by simp
  qed
  from reachable_inv [OF r] obtain as where i: "list_inv s0 0 as" by blast
  with e have "list_inv s0 0 []" by (simp add: empty_inv)
  then show ?thesis using * [of s0] * [OF init_inv, of d] unfolding s_list_of_def by blast
qed

theorem push_back_order_witness:
  "run [] (s_list_init (0::int)) = Some (s_list_init 0) \<and> empty_l (s_list_init (0::int)) \<and>
   (\<exists>s. run (map PushBack [1, 2]) (s_list_init (0::int)) = Some s \<and>
        traverse s = Some (Inr [1, 2]) \<and> size_l s = 2) \<and>
   (\<exists>s. s_list_of (0::int) [1, 2] = (None, s) \<and> traverse s = Some (Inr [1, 2]) \<and> size_l s = 2)"
proof -
  have r: "run [] (s_list_init (0::int)) = Some (s_list_init 0)" by simp
  have e: "empty_l (s_list_init (0::int))" by (simp add: empty_l_def s_list_init_def)
  show ?thesis using r e push_back_order [OF r e, of "[1, 2]"] by auto
qed

subsection \<open>\<open>erase\<close>\<close>

text \<open>
  C2. For every list reached by a sequence of calls, with forward traversal \<open>xs\<close>:
  if \<open>x\<close> occurs in \<open>xs\<close> (in particular if it occurs exactly once), \<open>erase(x)\<close> returns
  normally, \<open>size()\<close> is one less and the traversal afterwards is \<open>xs\<close> with the first
  occurrence of \<open>x\<close> removed; if the list is not empty and \<open>x\<close> does not occur, \<open>erase(x)\<close>
  raises \<open>ValueNotFound\<close>; if the list is empty it raises \<open>EmptyContainer\<close>.
\<close>

theorem erase_correct:
  assumes r: "run cs (s_list_init d) = Some s"
  shows "\<exists>xs. traverse s = Some (Inr xs) \<and>
    (x \<in> set xs \<longrightarrow>
       (\<exists>s'. erase x s = Some (None, s') \<and> Suc (size_l s') = size_l s \<and>
             traverse s' = Some (Inr (remove1 x xs)))) \<and>
    (xs \<noteq> [] \<and> x \<notin> set xs \<longrightarrow> erase x s = Some (Some ValueNotFound, s)) \<and>
    (xs = [] \<longrightarrow> erase x s = Some (Some EmptyContainer, s))"
proof -
  from reachable_inv [OF r] obtain as where i: "list_inv s 0 as" by blast
  let ?f = "\<lambda>a. m_data (store s a)"
  have xs: "elems s as = map ?f as" by (simp add: elems_def)
  have found: "\<exists>s'. erase x s = Some (None, s') \<and> Suc (size_l s') = size_l s \<and>
             traverse s' = Some (Inr (remove1 x (elems s as)))" if "x \<in> set (elems s as)"
  proof -
    from that obtain pre b post where as: "as = pre @ b # post" and b: "?f b = x"
      and pre: "\<forall>a\<in>set pre. ?f a \<noteq> x"
      using split_first [of as ?f x] by (auto simp: elems_def)
    from erase_found [OF i [unfolded as] b pre] obtain s'
      where e: "erase x s = Some (None, s')" and i': "list_inv s' 0 (pre @ post)"
        and el: "elems s' (pre @ post) = elems s (pre @ post)" by blast
    have "remove1 x (elems s as) = elems s (pre @ post)"
      unfolding xs as using remove1_first [OF b pre] by (simp add: elems_def)
    then show ?thesis
      using e traverse_inv [OF i'] size_inv [OF i'] size_inv [OF i] el
      by (simp add: as elems_def)
  qed
  have absent: "erase x s = Some (Some ValueNotFound, s)"
    if "elems s as \<noteq> []" "x \<notin> set (elems s as)"
    using that erase_absent [OF i, of x] by (auto simp: elems_def)
  have empty: "erase x s = Some (Some EmptyContainer, s)" if "elems s as = []"
    using that erase_empty [of s 0 x] i by (simp add: elems_def)
  show ?thesis
    using traverse_inv [OF i] found absent empty by blast
qed

theorem erase_correct_witness:
  "run [PushBack 1, PushBack 2] (s_list_init 0) = Some example_list \<and>
   traverse example_list = Some (Inr [1, 2]) \<and>
   (\<exists>s'. erase 2 example_list = Some (None, s') \<and> Suc (size_l s') = size_l example_list \<and>
         traverse s' = Some (Inr [1])) \<and>
   erase 7 example_list = Some (Some ValueNotFound, example_list) \<and>
   erase 7 (s_list_init (0::int)) = Some (Some EmptyContainer, s_list_init 0)"
proof -
  have r0: "run [] (s_list_init (0::int)) = Some (s_list_init 0)" by simp
  have t0: "traverse (s_list_init (0::int)) = Some (Inr [])"
    by (simp add: model_defs walk.simps)
  show ?thesis
    using example_run example_traverse erase_correct [OF example_run, of 2]
      erase_correct [OF example_run, of 7] erase_correct [OF r0, of 7] t0
    by auto
qed

subsection \<open>\<open>find\<close>\<close>

text \<open>
  C3. For every list reached by a sequence of calls, with the positions \<open>pvs\<close> of its forward
  traversal (node pointer and element): on the empty list \<open>find(x)\<close> raises
  \<open>EmptyContainer\<close>; on a non-empty list without \<open>x\<close> it returns \<open>nullptr\<close> normally; if
  \<open>x\<close> occurs, it returns the pointer of the first position whose element is \<open>x\<close>, which
  is not \<open>nullptr\<close>.
\<close>

theorem find_l_correct:
  assumes r: "run cs (s_list_init d) = Some s"
  shows "\<exists>pvs. positions s = Some (Inr pvs) \<and>
    (pvs = [] \<longrightarrow> find_l x s = Some (Inl EmptyContainer)) \<and>
    (pvs \<noteq> [] \<and> x \<notin> snd ` set pvs \<longrightarrow> find_l x s = Some (Inr None)) \<and>
    (x \<in> snd ` set pvs \<longrightarrow>
       (\<exists>i<length pvs. find_l x s = Some (Inr (fst (pvs ! i))) \<and> fst (pvs ! i) \<noteq> None \<and>
          snd (pvs ! i) = x \<and> (\<forall>j<i. snd (pvs ! j) \<noteq> x)))"
proof -
  from reachable_inv [OF r] obtain as where i: "list_inv s 0 as" by blast
  let ?f = "\<lambda>a. m_data (store s a)"
  let ?pvs = "map (\<lambda>a. (Some a, ?f a)) as"
  have p: "positions s = Some (Inr ?pvs)" by (rule positions_inv [OF i])
  have sn: "snd ` set ?pvs = ?f ` set as" by (auto simp: image_iff)
  have empty: "find_l x s = Some (Inl EmptyContainer)" if "?pvs = []"
    using that find_l_empty [of s 0 x] i by simp
  have absent: "find_l x s = Some (Inr None)" if "?pvs \<noteq> []" "x \<notin> snd ` set ?pvs"
    using that find_l_absent [OF i, of x] unfolding sn by auto
  have found: "\<exists>i<length ?pvs. find_l x s = Some (Inr (fst (?pvs ! i))) \<and> fst (?pvs ! i) \<noteq> None \<and>
          snd (?pvs ! i) = x \<and> (\<forall>j<i. snd (?pvs ! j) \<noteq> x)" if "x \<in> snd ` set ?pvs"
  proof -
    from that obtain pre b post where as: "as = pre @ b # post" and b: "?f b = x"
      and pre: "\<forall>a\<in>set pre. ?f a \<noteq> x"
      using split_first [of as ?f x] unfolding sn by auto
    have f: "find_l x s = Some (Inr (Some b))"
      by (rule find_l_found [OF i [unfolded as] b pre])
    have "length pre < length ?pvs" by (simp add: as)
    moreover have "?pvs ! length pre = (Some b, x)"
      by (simp add: as nth_append b)
    moreover have "\<forall>j<length pre. snd (?pvs ! j) \<noteq> x"
      using pre by (simp add: as nth_append)
    ultimately show ?thesis using f b by (intro exI [of _ "length pre"]) simp
  qed
  show ?thesis using p empty absent found by blast
qed

theorem find_l_correct_witness:
  "run [PushBack 1, PushBack 2] (s_list_init 0) = Some example_list \<and>
   positions example_list = Some (Inr [(Some 1, 1), (Some 2, 2)]) \<and>
   find_l 2 example_list = Some (Inr (Some 2)) \<and>
   find_l 7 example_list = Some (Inr None)"
proof -
  have "find_l 2 example_list = Some (Inr (Some 2))"
    using find_l_correct [OF example_run, of 2] example_positions
    by (auto simp: less_Suc_eq)
  moreover have "find_l 7 example_list = Some (Inr None)"
    using find_l_correct [OF example_run, of 7] example_positions by auto
  ultimately show ?thesis using example_run example_positions by simp
qed

subsection \<open>\<open>insert_after\<close>\<close>

text \<open>
  C4. For every list reached by a sequence of calls, with forward traversal \<open>xs\<close>:
  if \<open>pos\<close> occurs in \<open>xs\<close>, \<open>insert_after(pos, v)\<close> returns normally, \<open>size()\<close> is one
  more, and the traversal afterwards is \<open>xs\<close> with \<open>v\<close> inserted right after the first
  occurrence of \<open>pos\<close>, all other elements in their order; if that first occurrence is
  the last element, \<open>m_last\<close> afterwards is the new node made by \<open>make_shared\<close> and
  \<open>back()\<close> is \<open>v\<close>. On a non-empty list without \<open>pos\<close> the call raises \<open>ValueNotFound\<close>,
  on the empty list \<open>EmptyContainer\<close>.
\<close>

theorem insert_after_correct:
  assumes r: "run cs (s_list_init d) = Some s"
  shows "\<exists>xs. traverse s = Some (Inr xs) \<and>
    (pos \<in> set xs \<longrightarrow>
       (\<exists>s'. insert_after pos v s = Some (None, s') \<and> size_l s' = Suc (size_l s) \<and>
          traverse s' = Some (Inr (takeWhile (\<lambda>y. y \<noteq> pos) xs @ pos # v #
                                     tl (dropWhile (\<lambda>y. y \<noteq> pos) xs))) \<and>
          (pos \<notin> set (butlast xs) \<longrightarrow>
             m_last s' = fst (make_shared v s) \<and> back_l s' = Inr v))) \<and>
    (xs \<noteq> [] \<and> pos \<notin> set xs \<longrightarrow> insert_after pos v s = Some (Some ValueNotFound, s)) \<and>
    (xs = [] \<longrightarrow> insert_after pos v s = Some (Some EmptyContainer, s))"
proof -
  from reachable_inv [OF r] obtain as where i: "list_inv s 0 as" by blast
  let ?f = "\<lambda>a. m_data (store s a)"
  have xs: "elems s as = map ?f as" by (simp add: elems_def)
  have found: "\<exists>s'. insert_after pos v s = Some (None, s') \<and> size_l s' = Suc (size_l s) \<and>
          traverse s' = Some (Inr (takeWhile (\<lambda>y. y \<noteq> pos) (elems s as) @ pos # v #
                                     tl (dropWhile (\<lambda>y. y \<noteq> pos) (elems s as)))) \<and>
          (pos \<notin> set (butlast (elems s as)) \<longrightarrow>
             m_last s' = fst (make_shared v s) \<and> back_l s' = Inr v)"
    if "pos \<in> set (elems s as)"
  proof -
    from that obtain pre b post where as: "as = pre @ b # post" and b: "?f b = pos"
      and pre: "\<forall>a\<in>set pre. ?f a \<noteq> pos"
      using split_first [of as ?f pos] by (auto simp: elems_def)
    let ?as' = "pre @ b # fresh s # post"
    from insert_after_found [OF i [unfolded as] b pre, of v] obtain s'
      where e: "insert_after pos v s = Some (None, s')" and i': "list_inv s' 0 ?as'"
        and el: "elems s' ?as' = elems s (pre @ [b]) @ v # elems s post" by blast
    have tr: "takeWhile (\<lambda>y. y \<noteq> pos) (elems s as) @ pos # v #
                tl (dropWhile (\<lambda>y. y \<noteq> pos) (elems s as)) = elems s' ?as'"
      unfolding xs as el using takeWhile_first [OF b pre] dropWhile_first [OF b pre] b
      by (simp add: elems_def)
    have tail: "m_last s' = fst (make_shared v s) \<and> back_l s' = Inr v"
      if "pos \<notin> set (butlast (elems s as))"
    proof -
      have "post = []"
      proof (rule ccontr)
        assume "post \<noteq> []"
        then have "pos \<in> set (butlast (elems s as))"
          using b by (auto simp: elems_def as butlast_append)
        with that show False by simp
      qed
      then show ?thesis
        using i' front_back_inv(2) [OF i'] el
        by (simp add: list_inv_def make_shared_def elems_def)
    qed
    show ?thesis
      using e traverse_inv [OF i'] size_inv [OF i'] size_inv [OF i] el tr tail
      by (simp add: as elems_def)
  qed
  have absent: "insert_after pos v s = Some (Some ValueNotFound, s)"
    if "elems s as \<noteq> []" "pos \<notin> set (elems s as)"
    using that insert_after_absent [OF i, of pos v] by (auto simp: elems_def)
  have empty: "insert_after pos v s = Some (Some EmptyContainer, s)" if "elems s as = []"
    using that insert_after_empty [of s 0 pos v] i by (simp add: elems_def)
  show ?thesis
    using traverse_inv [OF i] found absent empty by blast
qed

theorem insert_after_correct_witness:
  "run [PushBack 1, PushBack 2] (s_list_init 0) = Some example_list \<and>
   traverse example_list = Some (Inr [1, 2]) \<and>
   (\<exists>s'. insert_after 2 5 example_list = Some (None, s') \<and>
         size_l s' = Suc (size_l example_list) \<and>
         traverse s' = Some (Inr [1, 2, 5]) \<and> back_l s' = Inr 5) \<and>
   (\<exists>s'. insert_after 1 5 example_list = Some (None, s') \<and>
         traverse s' = Some (Inr [1, 5, 2])) \<and>
   insert_after 7 5 example_list = Some (Some ValueNotFound, example_list)"
  using example_run example_traverse insert_after_correct [OF example_run, of 2 5]
    insert_after_correct [OF example_run, of 1 5] insert_after_correct [OF example_run, of 7 5]
  by auto

subsection \<open>A call that raises leaves the list as it was\<close>

text \<open>
  C5. Whenever \<open>erase\<close> or \<open>insert_after\<close> raises \<open>EmptyContainer\<close> or \<open>ValueNotFound\<close>,
  the list at the throw is the list before the call: the same \<open>size()\<close>, the same forward
  traversal, the same \<open>front()\<close> and \<open>back()\<close>.
\<close>

theorem raise_leaves_list:
  assumes "erase x s = Some (Some e, s') \<or> insert_after pos v s = Some (Some e, s')"
    and "e = EmptyContainer \<or> e = ValueNotFound"
  shows "s' = s \<and> size_l s' = size_l s \<and> traverse s' = traverse s \<and>
         front_l s' = front_l s \<and> back_l s' = back_l s"
proof -
  have "s' = s"
    using assms
    by (auto simp: erase_def insert_after_def reading_def and_then_def node_next_def
        assign_next_def make_shared_def Let_def
        split: if_splits option.splits sum.splits)
  then show ?thesis by simp
qed

theorem raise_leaves_list_witness:
  "erase 7 example_list = Some (Some ValueNotFound, example_list) \<and>
   insert_after 7 5 (s_list_init (0::int)) = Some (Some EmptyContainer, s_list_init 0) \<and>
   traverse example_list = Some (Inr [1, 2])"
proof -
  have e: "erase 7 example_list = Some (Some ValueNotFound, example_list)"
    by (simp add: example_list_def model_defs scan.simps)
  have i: "insert_after 7 5 (s_list_init (0::int)) = Some (Some EmptyContainer, s_list_init 0)"
    by (simp add: model_defs)
  show ?thesis
    using e i example_traverse
      raise_leaves_list [of 7 example_list ValueNotFound example_list 7 5]
      raise_leaves_list [of 7 "s_list_init (0::int)" EmptyContainer "s_list_init 0" 7 5]
    by simp
qed

subsection \<open>\<open>front\<close>, \<open>back\<close> and the traversal\<close>

text \<open>
  C6. Every list reached from a freshly constructed list by a finite sequence of
  \<open>push_back\<close>, \<open>push_front\<close>, \<open>erase\<close>, \<open>insert_after\<close> and \<open>clear\<close> calls has a forward
  traversal \<open>xs\<close>, is \<open>empty()\<close> exactly when \<open>xs\<close> is empty, and when it is not empty
  \<open>front()\<close> is the first and \<open>back()\<close> the last element of \<open>xs\<close>.
\<close>

theorem tail_consistency:
  assumes r: "run cs (s_list_init d) = Some s"
  shows "\<exists>xs. traverse s = Some (Inr xs) \<and> (empty_l s \<longleftrightarrow> xs = []) \<and>
           (xs \<noteq> [] \<longrightarrow> front_l s = Inr (hd xs) \<and> back_l s = Inr (last xs))"
proof -
  from reachable_inv [OF r] obtain as where i: "list_inv s 0 as" by blast
  show ?thesis
    using traverse_inv [OF i] empty_inv [OF i] front_back_inv [OF i]
    by (auto simp: elems_def)
qed

theorem tail_consistency_witness:
  "run [PushBack 1, PushBack 2] (s_list_init 0) = Some example_list \<and>
   traverse example_list = Some (Inr [1, 2]) \<and> \<not> empty_l example_list \<and>
   front_l example_list = Inr 1 \<and> back_l example_list = Inr 2"
  using example_run example_traverse tail_consistency [OF example_run] by auto

subsection \<open>\<open>empty\<close>, \<open>size\<close> and the tail pointer\<close>

text \<open>
  C7. In every list reached by a sequence of calls (so before and after every call),
  \<open>empty()\<close> is true exactly when \<open>size()\<close> is 0; \<open>m_last\<close> is \<open>nullptr\<close> exactly when
  \<open>m_size\<close> is 0, and otherwise it is the node of the last position of the traversal,
  whose next-link is \<open>nullptr\<close>. \<open>empty()\<close> is a \<open>const\<close> method: it only reads \<open>m_last\<close>.
\<close>

theorem empty_iff_size:
  assumes r: "run cs (s_list_init d) = Some s"
  shows "(empty_l s \<longleftrightarrow> size_l s = 0) \<and> (m_last s = None \<longleftrightarrow> m_size s = 0) \<and>
         (m_last s \<noteq> None \<longrightarrow>
            node_next (store s) (m_last s) = Inr None \<and>
            (\<exists>pvs. positions s = Some (Inr pvs) \<and> pvs \<noteq> [] \<and> fst (last pvs) = m_last s))"
proof -
  from reachable_inv [OF r] obtain as where i: "list_inv s 0 as" by blast
  have "node_next (store s) (m_last s) = Inr None" if "as \<noteq> []"
    using that i seg_last_next [of "0 # as" "store s" "Some 0" None]
    by (simp add: list_inv_def node_next_def)
  then show ?thesis
    using i positions_inv [OF i]
    by (auto simp: list_inv_def empty_l_def size_l_def last_map split: if_splits)
qed

theorem empty_iff_size_witness:
  "run [PushBack 1, PushBack 2] (s_list_init 0) = Some example_list \<and>
   \<not> empty_l example_list \<and> size_l example_list \<noteq> 0 \<and> m_last example_list \<noteq> None \<and>
   node_next (store example_list) (m_last example_list) = Inr None"
  using example_run example_empty empty_iff_size [OF example_run]
  by (auto simp: empty_l_def)

subsection \<open>\<open>clear\<close>\<close>

text \<open>
  C9. For every list reached by a sequence of calls, empty or not, \<open>clear()\<close> returns
  normally with \<open>size() == 0\<close>, \<open>empty()\<close> true and an empty traversal; the first node
  \<open>m_first\<close> is the same node as before; a second \<open>clear()\<close> returns the very same list.
\<close>

theorem clear_idempotent:
  assumes r: "run cs (s_list_init d) = Some s"
  shows "\<exists>s'. clear s = Some (None, s') \<and> size_l s' = 0 \<and> empty_l s' \<and>
           traverse s' = Some (Inr []) \<and>
           m_first s' = m_first s \<and> m_first s' \<noteq> None \<and>
           clear s' = Some (None, s')"
proof -
  from reachable_inv [OF r] obtain as where i: "list_inv s 0 as" by blast
  from clear_inv [OF i] obtain s' where c: "clear s = Some (None, s')"
    and i': "list_inv s' 0 []" and f: "m_first s' = m_first s" by blast
  show ?thesis
    using c f clear_empty [OF i'] traverse_inv [OF i'] size_inv [OF i'] empty_inv [OF i'] i'
    by (simp add: elems_def list_inv_def)
qed

theorem clear_idempotent_witness:
  "run [PushBack 1, PushBack 2] (s_list_init 0) = Some example_list \<and>
   (\<exists>s'. clear example_list = Some (None, s') \<and> size_l s' = 0 \<and> empty_l s' \<and>
         m_first s' = Some 0 \<and> clear s' = Some (None, s'))"
proof -
  have "m_first example_list = Some 0" by (simp add: example_list_def model_defs)
  then show ?thesis
    using example_run clear_idempotent [OF example_run] by auto
qed

end
